theory Spec2Isabelle
  imports Complex_Main "HOL-Library.Word"
begin

unbundle bit_operations_syntax

section \<open>Data model\<close>

text \<open>
  The class \<^verbatim>\<open>BloomFilter\<close> of \<^verbatim>\<open>main.cpp\<close> has two fields: the bit array
  (a \<^verbatim>\<open>std::vector<bool>\<close>) and the number of hash functions (a \<^verbatim>\<open>size_t\<close>).
  \<^verbatim>\<open>size_t\<close> is taken as the 64-bit unsigned integer of an LP64 platform, and plain
  \<^verbatim>\<open>char\<close> as signed (the x86-64 convention), so that a byte of value 128 or more is
  sign-extended when it is converted to \<^verbatim>\<open>size_t\<close>.

  Undefined behaviour of the C++ source is a value of the model: a remainder or quotient
  by zero, an index outside the vector, and a conversion of a floating-point value that the
  target integer type cannot hold. A failed allocation of the bit array is not modelled.
\<close>

type_synonym size_t = "64 word"

datatype fault = DivisionByZero | OutOfBounds | ConversionOutOfRange

record BloomFilter =
  bitArray :: "bool list"
  numHashFunctions :: size_t

text \<open>The constructor: \<^verbatim>\<open>bitArray(size, false), numHashFunctions(numHashes)\<close>. It has no check.\<close>

definition BloomFilter :: "size_t \<Rightarrow> size_t \<Rightarrow> BloomFilter" where
  "BloomFilter sz numHashes =
     \<lparr>bitArray = replicate (unat sz) False, numHashFunctions = numHashes\<rparr>"

text \<open>\<^verbatim>\<open>getBitArraySize\<close>: \<^verbatim>\<open>bitArray.size()\<close>, a \<^verbatim>\<open>size_t\<close>.\<close>

definition getBitArraySize :: "BloomFilter \<Rightarrow> size_t" where
  "getBitArraySize f = of_nat (length (bitArray f))"

section \<open>The seeded hash\<close>

text \<open>The conversion of a \<^verbatim>\<open>char\<close> operand of \<^verbatim>\<open>hash ^= c\<close> to \<^verbatim>\<open>size_t\<close>.\<close>

definition char_to_size_t :: "char \<Rightarrow> size_t" where
  "char_to_size_t c = scast (of_char c :: 8 word)"

text \<open>One round of the loop body of \<^verbatim>\<open>hash\<close>:
  \<^verbatim>\<open>hash ^= c; hash *= 0x5bd1e995; hash ^= hash >> 15;\<close>\<close>

definition hash_round :: "size_t \<Rightarrow> char \<Rightarrow> size_t" where
  "hash_round h c =
     (let h1 = h XOR char_to_size_t c;
          h2 = h1 * 0x5bd1e995
      in h2 XOR drop_bit 15 h2)"

text \<open>The range-for over the bytes of the item.\<close>

fun hash_loop :: "size_t \<Rightarrow> string \<Rightarrow> size_t" where
  "hash_loop h [] = h"
| "hash_loop h (c # cs) = hash_loop (hash_round h c) cs"

text \<open>\<^verbatim>\<open>return hash % bitArray.size();\<close> The remainder by zero is undefined in C++.\<close>

definition hash :: "BloomFilter \<Rightarrow> string \<Rightarrow> size_t \<Rightarrow> fault + size_t" where
  "hash f item seed =
     (let h = hash_loop seed item
      in if getBitArraySize f = 0 then Inl DivisionByZero
         else Inr (h mod getBitArraySize f))"

section \<open>Insertion and query\<close>

text \<open>
  The loop of \<^verbatim>\<open>insert\<close>, from counter \<open>i\<close> on:
  \<^verbatim>\<open>for (size_t i = 0; i < numHashFunctions; ++i) bitArray[hash(item, i)] = true;\<close>
  An index outside the vector is undefined in C++ and a fault here.
\<close>

function insert_loop :: "BloomFilter \<Rightarrow> string \<Rightarrow> size_t \<Rightarrow> fault + BloomFilter" where
  "insert_loop f item i =
     (if i < numHashFunctions f then
        (case hash f item i of
           Inl e \<Rightarrow> Inl e
         | Inr h \<Rightarrow>
             if unat h < length (bitArray f)
             then insert_loop (f\<lparr>bitArray := (bitArray f)[unat h := True]\<rparr>) item (i + 1)
             else Inl OutOfBounds)
      else Inr f)"
  by pat_completeness auto
termination
proof (relation "measure (\<lambda>(f, item, i). unat (numHashFunctions f) - unat i)")
  show "wf (measure (\<lambda>(f, item, i). unat (numHashFunctions f) - unat i))"
    by simp
next
  fix f :: BloomFilter and item :: string and i h :: size_t
  assume lt: "i < numHashFunctions f"
  then have below: "unat i < unat (numHashFunctions f)"
    by (simp add: word_less_nat_alt)
  have "unat (numHashFunctions f) < 2 ^ 64"
    using unsigned_less [of "numHashFunctions f", where 'a = nat] by simp
  moreover have "unat (i + 1) = (unat i + 1) mod 2 ^ 64"
    by (simp add: unat_word_ariths)
  ultimately have "unat (i + 1) = Suc (unat i)"
    using below by simp
  with below show
    "((f\<lparr>bitArray := (bitArray f)[unat h := True]\<rparr>, item, i + 1), (f, item, i))
       \<in> measure (\<lambda>(f, item, i). unat (numHashFunctions f) - unat i)"
    by simp
qed

definition insert_item :: "BloomFilter \<Rightarrow> string \<Rightarrow> fault + BloomFilter" where
  "insert_item f item = insert_loop f item 0"

text \<open>
  The loop of \<^verbatim>\<open>mightContain\<close>, from counter \<open>i\<close> on: it returns false at the first
  position whose bit is clear, true when the counter reaches the number of hash functions.
\<close>

function mightContain_loop :: "BloomFilter \<Rightarrow> string \<Rightarrow> size_t \<Rightarrow> fault + bool" where
  "mightContain_loop f item i =
     (if i < numHashFunctions f then
        (case hash f item i of
           Inl e \<Rightarrow> Inl e
         | Inr h \<Rightarrow>
             if unat h < length (bitArray f)
             then (if \<not> bitArray f ! unat h then Inr False
                   else mightContain_loop f item (i + 1))
             else Inl OutOfBounds)
      else Inr True)"
  by pat_completeness auto
termination
proof (relation "measure (\<lambda>(f, item, i). unat (numHashFunctions f) - unat i)")
  show "wf (measure (\<lambda>(f, item, i). unat (numHashFunctions f) - unat i))"
    by simp
next
  fix f :: BloomFilter and item :: string and i :: size_t
  assume lt: "i < numHashFunctions f"
  then have below: "unat i < unat (numHashFunctions f)"
    by (simp add: word_less_nat_alt)
  have "unat (numHashFunctions f) < 2 ^ 64"
    using unsigned_less [of "numHashFunctions f", where 'a = nat] by simp
  moreover have "unat (i + 1) = (unat i + 1) mod 2 ^ 64"
    by (simp add: unat_word_ariths)
  ultimately have "unat (i + 1) = Suc (unat i)"
    using below by simp
  with below show
    "((f, item, i + 1), (f, item, i))
       \<in> measure (\<lambda>(f, item, i). unat (numHashFunctions f) - unat i)"
    by simp
qed

definition mightContain :: "BloomFilter \<Rightarrow> string \<Rightarrow> fault + bool" where
  "mightContain f item = mightContain_loop f item 0"

text \<open>A sequence of \<^verbatim>\<open>insert\<close> calls on one filter, as the driver's loop makes them.\<close>

fun insert_all :: "BloomFilter \<Rightarrow> string list \<Rightarrow> fault + BloomFilter" where
  "insert_all f [] = Inr f"
| "insert_all f (x # xs) =
     (case insert_item f x of Inl e \<Rightarrow> Inl e | Inr f' \<Rightarrow> insert_all f' xs)"

section \<open>Memory accounting\<close>


section \<open>The capacity planner\<close>

text \<open>
  \<^verbatim>\<open>optimalParameters\<close> computes in \<^verbatim>\<open>double\<close>. The model computes in the reals:
  \<^verbatim>\<open>log\<close> is \<open>ln\<close> on positive arguments, products, quotients and \<^verbatim>\<open>ceil\<close> are exact,
  and the conversion of \<^verbatim>\<open>expectedElements\<close> to \<^verbatim>\<open>double\<close> is exact. Rounding error of
  the floating-point operations is outside this definition; \<open>optimalParameters_fp\<close>
  below takes the rounding as a parameter. What the model keeps of the
  C++ semantics is the integer side: the \<^verbatim>\<open>size_t\<close> quotient \<^verbatim>\<open>m / expectedElements\<close>,
  and the conversions from \<^verbatim>\<open>double\<close> to \<^verbatim>\<open>size_t\<close>, which truncate towards zero and
  are undefined when the truncated value is not a \<^verbatim>\<open>size_t\<close>.
\<close>

definition double_to_size_t :: "real \<Rightarrow> fault + size_t" where
  "double_to_size_t x =
     (let t = (if 0 \<le> x then \<lfloor>x\<rfloor> else \<lceil>x\<rceil>)
      in if t < 0 \<or> 2 ^ 64 \<le> t then Inl ConversionOutOfRange else Inr (word_of_int t))"

definition ceil :: "real \<Rightarrow> real" where
  "ceil x = real_of_int \<lceil>x\<rceil>"

text \<open>
  \<^verbatim>\<open>size_t m = ceil(-(expectedElements * log(falsePositiveRate)) / (log(2) * log(2)));\<close>
  \<^verbatim>\<open>size_t k = ceil((m / expectedElements) * log(2));\<close>
  For a rate of zero or less \<^verbatim>\<open>log\<close> yields minus infinity or a NaN, the first
  \<^verbatim>\<open>ceil\<close> yields an infinity or a NaN, and its conversion to \<^verbatim>\<open>size_t\<close> is undefined.
\<close>

definition optimalParameters :: "size_t \<Rightarrow> real \<Rightarrow> fault + (size_t \<times> size_t)" where
  "optimalParameters expectedElements falsePositiveRate =
     (if falsePositiveRate \<le> 0 then Inl ConversionOutOfRange
      else
        case double_to_size_t
               (ceil (- (real (unat expectedElements) * ln falsePositiveRate) / (ln 2 * ln 2))) of
          Inl e \<Rightarrow> Inl e
        | Inr m \<Rightarrow>
            if expectedElements = 0 then Inl DivisionByZero
            else
              (case double_to_size_t (ceil (real (unat (m div expectedElements)) * ln 2)) of
                 Inl e \<Rightarrow> Inl e
               | Inr k \<Rightarrow> Inr (m, k)))"

text \<open>
  The sizing formulas as the specification words them, over the mathematical integers and
  reals: \<open>m = ceil(-(n * ln p) / (ln 2)^2)\<close> and \<open>k = ceil((m / n) * ln 2)\<close>, the ratio
  \<open>m / n\<close> taken over the rounded \<open>m\<close>.
\<close>

definition spec_optimalParameters :: "nat \<Rightarrow> real \<Rightarrow> int \<times> int" where
  "spec_optimalParameters n p =
     (let m = \<lceil>- (real n * ln p) / (ln 2)\<^sup>2\<rceil>
      in (m, \<lceil>(real_of_int m / real n) * ln 2\<rceil>))"



section \<open>Positions\<close>

text \<open>
  The index that hash slot \<open>s\<close> selects for an item in a filter with a non-empty bit
  array: the value \<^verbatim>\<open>hash(item, s)\<close> returns, read as a natural number. It names the
  positions in the statements about the two loops.
\<close>

definition position :: "BloomFilter \<Rightarrow> string \<Rightarrow> size_t \<Rightarrow> nat" where
  "position f item s = unat (hash_loop s item mod getBitArraySize f)"

section \<open>The loops, characterised\<close>

text \<open>
  A \<^verbatim>\<open>std::vector\<close> reports its length as a \<^verbatim>\<open>size_t\<close>, so the length of a bit array
  is below \<open>2 ^ 64\<close>; the constructor builds such an array and \<^verbatim>\<open>insert\<close> keeps the
  length. The lemmas below take this bound, and a non-empty array, as their hypotheses.
\<close>

declare insert_loop.simps [simp del]
declare mightContain_loop.simps [simp del]

lemma size_unat:
  assumes "length (bitArray f) < 2 ^ 64"
  shows "unat (getBitArraySize f) = length (bitArray f)"
  using assms by (simp add: getBitArraySize_def unat_of_nat)

lemma size_nonzero:
  assumes "0 < length (bitArray f)" and "length (bitArray f) < 2 ^ 64"
  shows "getBitArraySize f \<noteq> 0"
proof
  assume "getBitArraySize f = 0"
  then have "unat (getBitArraySize f) = 0" by simp
  with assms show False by (simp add: size_unat)
qed

lemma position_less:
  assumes "0 < length (bitArray f)" and "length (bitArray f) < 2 ^ 64"
  shows "position f item s < length (bitArray f)"
proof -
  have nz: "getBitArraySize f \<noteq> 0"
    using assms by (rule size_nonzero)
  then have "hash_loop s item mod getBitArraySize f < getBitArraySize f"
    by (simp add: word_mod_less_divisor word_greater_zero_iff)
  then have "position f item s < unat (getBitArraySize f)"
    by (simp add: position_def word_less_nat_alt)
  with assms show ?thesis by (simp add: size_unat)
qed

lemma hash_position:
  assumes "0 < length (bitArray f)" and "length (bitArray f) < 2 ^ 64"
  shows "\<exists>h. hash f item s = Inr h \<and> unat h = position f item s"
  using size_nonzero [OF assms] by (simp add: hash_def position_def)

lemma position_cong:
  "length (bitArray g) = length (bitArray f) \<Longrightarrow> position g item s = position f item s"
  by (simp add: position_def getBitArraySize_def)

lemma succ_le_iff:
  fixes i k s :: size_t
  assumes "i < k"
  shows "(i + 1 \<le> s) = (i < s)"
proof -
  from assms have a: "unat i < unat k"
    by (simp add: word_less_nat_alt)
  have "unat k < 2 ^ 64"
    using unsigned_less [of k, where 'a = nat] by simp
  moreover have "unat (i + 1) = (unat i + 1) mod 2 ^ 64"
    by (simp add: unat_word_ariths)
  ultimately have "unat (i + 1) = Suc (unat i)"
    using a by simp
  then show ?thesis
    by (auto simp add: word_le_nat_alt word_less_nat_alt)
qed

lemma le_split:
  fixes i k s :: size_t
  assumes "i < k"
  shows "(i \<le> s) = (s = i \<or> i + 1 \<le> s)"
  unfolding succ_le_iff [OF assms] by auto

lemma range_ex_split:
  fixes i k :: size_t
  assumes "i < k"
  shows "(\<exists>s. i \<le> s \<and> s < k \<and> P s) = (P i \<or> (\<exists>s. i + 1 \<le> s \<and> s < k \<and> P s))"
  using assms by (subst le_split [OF assms]) blast

lemma range_all_split:
  fixes i k :: size_t
  assumes "i < k"
  shows "(\<forall>s. i \<le> s \<and> s < k \<longrightarrow> P s) = (P i \<and> (\<forall>s. i + 1 \<le> s \<and> s < k \<longrightarrow> P s))"
  using assms by (subst le_split [OF assms]) blast

lemma insert_loop_char:
  assumes "0 < length (bitArray f)" and "length (bitArray f) < 2 ^ 64"
  shows "\<exists>g. insert_loop f item i = Inr g
           \<and> numHashFunctions g = numHashFunctions f
           \<and> length (bitArray g) = length (bitArray f)
           \<and> (\<forall>j < length (bitArray f).
                 bitArray g ! j =
                   (bitArray f ! j \<or> (\<exists>s. i \<le> s \<and> s < numHashFunctions f \<and> j = position f item s)))"
  using assms
proof (induction f item i rule: insert_loop.induct)
  case (1 f item i)
  show ?case
  proof (cases "i < numHashFunctions f")
    case False
    then show ?thesis
      by (subst insert_loop.simps) auto
  next
    case True
    obtain h where h: "hash f item i = Inr h" "unat h = position f item i"
      using hash_position [OF "1.prems"] by blast
    have hl: "unat h < length (bitArray f)"
      using h(2) position_less [OF "1.prems"] by simp
    let ?f1 = "f\<lparr>bitArray := (bitArray f)[unat h := True]\<rparr>"
    have "0 < length (bitArray ?f1)" "length (bitArray ?f1) < 2 ^ 64"
      using "1.prems" by simp_all
    from "1.IH" [OF True h(1) hl this]
    obtain g where g: "insert_loop ?f1 item (i + 1) = Inr g"
      "numHashFunctions g = numHashFunctions ?f1"
      "length (bitArray g) = length (bitArray ?f1)"
      "\<forall>j < length (bitArray ?f1). bitArray g ! j =
          (bitArray ?f1 ! j \<or> (\<exists>s. i + 1 \<le> s \<and> s < numHashFunctions ?f1 \<and> j = position ?f1 item s))"
      by blast
    have pc: "\<And>s. position ?f1 item s = position f item s"
      by (rule position_cong) simp
    have eq: "insert_loop f item i = Inr g"
      using True h(1) hl g(1) by (subst insert_loop.simps) simp
    have "\<forall>j < length (bitArray f). bitArray g ! j =
            (bitArray f ! j \<or> (\<exists>s. i \<le> s \<and> s < numHashFunctions f \<and> j = position f item s))"
    proof (intro allI impI)
      fix j assume j: "j < length (bitArray f)"
      have "bitArray g ! j =
          (bitArray ?f1 ! j \<or> (\<exists>s. i + 1 \<le> s \<and> s < numHashFunctions f \<and> j = position f item s))"
        using g(4) j pc by simp
      also have "bitArray ?f1 ! j = (j = position f item i \<or> bitArray f ! j)"
        using j h(2) by (cases "j = position f item i") simp_all
      finally have step: "bitArray g ! j =
          ((j = position f item i \<or> bitArray f ! j)
            \<or> (\<exists>s. i + 1 \<le> s \<and> s < numHashFunctions f \<and> j = position f item s))" .
      have "(\<exists>s. i \<le> s \<and> s < numHashFunctions f \<and> j = position f item s) =
          (j = position f item i
            \<or> (\<exists>s. i + 1 \<le> s \<and> s < numHashFunctions f \<and> j = position f item s))"
        by (rule range_ex_split [OF True])
      with step show "bitArray g ! j =
            (bitArray f ! j \<or> (\<exists>s. i \<le> s \<and> s < numHashFunctions f \<and> j = position f item s))"
        by blast
    qed
    with eq g(2,3) show ?thesis by simp
  qed
qed

lemma mightContain_loop_char:
  assumes "0 < length (bitArray f)" and "length (bitArray f) < 2 ^ 64"
  shows "mightContain_loop f item i =
           Inr (\<forall>s. i \<le> s \<and> s < numHashFunctions f \<longrightarrow> bitArray f ! position f item s)"
  using assms
proof (induction f item i rule: mightContain_loop.induct)
  case (1 f item i)
  show ?case
  proof (cases "i < numHashFunctions f")
    case False
    then show ?thesis
      by (subst mightContain_loop.simps) auto
  next
    case True
    obtain h where h: "hash f item i = Inr h" "unat h = position f item i"
      using hash_position [OF "1.prems"] by blast
    have hl: "unat h < length (bitArray f)"
      using h(2) position_less [OF "1.prems"] by simp
    show ?thesis
    proof (cases "bitArray f ! unat h")
      case False
      then have "mightContain_loop f item i = Inr False"
        using True h(1) hl by (subst mightContain_loop.simps) simp
      moreover have "\<not> (\<forall>s. i \<le> s \<and> s < numHashFunctions f \<longrightarrow> bitArray f ! position f item s)"
        using False True h(2) by (auto intro: exI [of _ i])
      ultimately show ?thesis by simp
    next
      case bit: True
      then have "mightContain_loop f item i = mightContain_loop f item (i + 1)"
        using True h(1) hl by (subst mightContain_loop.simps) simp
      also have "\<dots> = Inr (\<forall>s. i + 1 \<le> s \<and> s < numHashFunctions f \<longrightarrow> bitArray f ! position f item s)"
        using "1.IH" [OF True h(1) hl _ "1.prems"] bit by simp
      also have "(\<forall>s. i + 1 \<le> s \<and> s < numHashFunctions f \<longrightarrow> bitArray f ! position f item s)
          = (\<forall>s. i \<le> s \<and> s < numHashFunctions f \<longrightarrow> bitArray f ! position f item s)"
        using bit h(2) by (simp add: range_all_split [OF True, where P = "\<lambda>s. bitArray f ! position f item s"])
      finally show ?thesis .
    qed
  qed
qed

section \<open>Filters in use\<close>

lemma valid_insert_item:
  assumes "0 < length (bitArray f)" and "length (bitArray f) < 2 ^ 64"
  shows "\<exists>g. insert_item f item = Inr g
           \<and> numHashFunctions g = numHashFunctions f
           \<and> length (bitArray g) = length (bitArray f)
           \<and> (\<forall>j < length (bitArray f).
                 bitArray g ! j =
                   (bitArray f ! j \<or> (\<exists>s. s < numHashFunctions f \<and> j = position f item s)))"
  using insert_loop_char [OF assms, of item 0] by (simp add: insert_item_def)

lemma valid_mightContain:
  assumes "0 < length (bitArray f)" and "length (bitArray f) < 2 ^ 64"
  shows "mightContain f item =
           Inr (\<forall>s. s < numHashFunctions f \<longrightarrow> bitArray f ! position f item s)"
  using mightContain_loop_char [OF assms, of item 0] by (simp add: mightContain_def)

lemma valid_insert_all:
  assumes "0 < length (bitArray f)" and "length (bitArray f) < 2 ^ 64"
  shows "\<exists>g. insert_all f xs = Inr g
           \<and> numHashFunctions g = numHashFunctions f
           \<and> length (bitArray g) = length (bitArray f)
           \<and> (\<forall>j < length (bitArray f). bitArray f ! j \<longrightarrow> bitArray g ! j)"
  using assms
proof (induction xs arbitrary: f)
  case Nil
  then show ?case by simp
next
  case (Cons x xs)
  obtain g1 where g1: "insert_item f x = Inr g1"
    "numHashFunctions g1 = numHashFunctions f"
    "length (bitArray g1) = length (bitArray f)"
    "\<forall>j < length (bitArray f). bitArray g1 ! j =
        (bitArray f ! j \<or> (\<exists>s. s < numHashFunctions f \<and> j = position f x s))"
    using valid_insert_item [OF Cons.prems] by blast
  have "0 < length (bitArray g1)" "length (bitArray g1) < 2 ^ 64"
    using g1(3) Cons.prems by simp_all
  from Cons.IH [OF this]
  obtain g where g: "insert_all g1 xs = Inr g"
    "numHashFunctions g = numHashFunctions g1"
    "length (bitArray g) = length (bitArray g1)"
    "\<forall>j < length (bitArray g1). bitArray g1 ! j \<longrightarrow> bitArray g ! j"
    by blast
  have "insert_all f (x # xs) = Inr g"
    using g1(1) g(1) by simp
  moreover have "\<forall>j < length (bitArray f). bitArray f ! j \<longrightarrow> bitArray g ! j"
    using g1(3,4) g(4) by simp
  ultimately show ?case
    using g1(2,3) g(2,3) by simp
qed

lemma insert_all_append:
  "insert_all f (xs @ ys) =
     (case insert_all f xs of Inl e \<Rightarrow> Inl e | Inr g \<Rightarrow> insert_all g ys)"
  by (induction xs arbitrary: f) (auto split: sum.splits)

lemma constructed_valid:
  assumes "m \<noteq> 0"
  shows "0 < length (bitArray (BloomFilter m k))"
    and "length (bitArray (BloomFilter m k)) < 2 ^ 64"
proof -
  show "0 < length (bitArray (BloomFilter m k))"
    using assms by (simp add: BloomFilter_def unat_gt_0)
  show "length (bitArray (BloomFilter m k)) < 2 ^ 64"
    using unsigned_less [of m, where 'a = nat] by (simp add: BloomFilter_def)
qed

text \<open>Two runs on a filter of eight bits and two hash functions, and a query that fails.\<close>

lemma run_ab_cd:
  "insert_all (BloomFilter 8 2) [''ab'', ''cd''] =
     Inr \<lparr>bitArray = [False, False, True, True, False, True, False, True],
          numHashFunctions = 2\<rparr>"
  by code_simp

lemma run_ab:
  "insert_item (BloomFilter 8 2) ''ab'' =
     Inr \<lparr>bitArray = [False, False, True, True, False, False, False, False],
          numHashFunctions = 2\<rparr>"
  by code_simp

lemma query_zz:
  "mightContain \<lparr>bitArray = [False, False, True, True, False, True, False, True],
                 numHashFunctions = 2\<rparr> ''zz'' = Inr False"
  by code_simp

section \<open>No false negatives\<close>

text \<open>
  Claim C1. For a filter constructed with \<open>m \<ge> 1\<close> and \<open>k \<ge> 1\<close> and any finite
  sequence of strings inserted into it, every \<^verbatim>\<open>insert\<close> call returns and
  \<^verbatim>\<open>mightContain(s)\<close> returns true for every string \<open>s\<close> of the sequence: \<open>s\<close> stands
  at any place of the sequence, after the strings \<open>xs\<close> inserted before it and before
  the strings \<open>ys\<close> inserted after it (with \<open>ys\<close> empty the query follows the insertion
  of \<open>s\<close> at once).
\<close>

theorem no_false_negatives:
  assumes "1 \<le> m" and "1 \<le> k"
  shows "\<exists>g. insert_all (BloomFilter m k) (xs @ s # ys) = Inr g \<and> mightContain g s = Inr True"
proof -
  from assms(1) have "m \<noteq> 0" by auto
  note v0 = constructed_valid [OF this, of k]
  obtain g1 where g1: "insert_all (BloomFilter m k) xs = Inr g1"
    "numHashFunctions g1 = numHashFunctions (BloomFilter m k)"
    "length (bitArray g1) = length (bitArray (BloomFilter m k))"
    using valid_insert_all [OF v0, of xs] by blast
  have v1: "0 < length (bitArray g1)" "length (bitArray g1) < 2 ^ 64"
    using g1(3) v0 by simp_all
  obtain g2 where g2: "insert_item g1 s = Inr g2"
    "numHashFunctions g2 = numHashFunctions g1"
    "length (bitArray g2) = length (bitArray g1)"
    "\<forall>j < length (bitArray g1). bitArray g2 ! j =
        (bitArray g1 ! j \<or> (\<exists>t. t < numHashFunctions g1 \<and> j = position g1 s t))"
    using valid_insert_item [OF v1, of s] by blast
  have v2: "0 < length (bitArray g2)" "length (bitArray g2) < 2 ^ 64"
    using g2(3) v1 by simp_all
  obtain g where g: "insert_all g2 ys = Inr g"
    "numHashFunctions g = numHashFunctions g2"
    "length (bitArray g) = length (bitArray g2)"
    "\<forall>j < length (bitArray g2). bitArray g2 ! j \<longrightarrow> bitArray g ! j"
    using valid_insert_all [OF v2, of ys] by blast
  have v: "0 < length (bitArray g)" "length (bitArray g) < 2 ^ 64"
    using g(3) v2 by simp_all
  have run: "insert_all (BloomFilter m k) (xs @ s # ys) = Inr g"
    using g1(1) g2(1) g(1) by (simp add: insert_all_append)
  have "bitArray g ! position g s t" if "t < numHashFunctions g" for t
  proof -
    have p: "position g s t = position g1 s t"
      by (rule position_cong) (simp add: g(3) g2(3))
    have "position g1 s t < length (bitArray g1)"
      by (rule position_less [OF v1])
    moreover have "t < numHashFunctions g1"
      using that g(2) g2(2) by simp
    ultimately have "bitArray g2 ! position g1 s t"
      using g2(4) by blast
    moreover have "position g1 s t < length (bitArray g2)"
      using position_less [OF v1, of s t] g2(3) by simp
    ultimately show ?thesis
      using g(4) p by simp
  qed
  then have "mightContain g s = Inr True"
    by (simp add: valid_mightContain [OF v])
  with run show ?thesis by blast
qed

theorem no_false_negatives_witness:
  "(1 :: size_t) \<le> 8 \<and> (1 :: size_t) \<le> 2
   \<and> insert_all (BloomFilter 8 2) [''ab'', ''cd''] =
       Inr \<lparr>bitArray = [False, False, True, True, False, True, False, True],
            numHashFunctions = 2\<rparr>
   \<and> mightContain \<lparr>bitArray = [False, False, True, True, False, True, False, True],
                    numHashFunctions = 2\<rparr> ''ab'' = Inr True
   \<and> mightContain \<lparr>bitArray = [False, False, True, True, False, True, False, True],
                    numHashFunctions = 2\<rparr> ''zz'' = Inr False"
  using no_false_negatives [of 8 2 "[]" "''ab''" "[''cd'']"] run_ab_cd query_zz
  by simp

section \<open>Idempotence\<close>

text \<open>
  Claim C6. Inserting a string twice in succession leaves the filter exactly as inserting
  it once does: on a filter with a non-empty bit array the first \<^verbatim>\<open>insert\<close> returns a
  state \<open>g\<close>, and the second, run on \<open>g\<close>, returns \<open>g\<close> again.
\<close>

theorem insert_idempotent:
  assumes "0 < length (bitArray f)" and "length (bitArray f) < 2 ^ 64"
  shows "\<exists>g. insert_item f s = Inr g \<and> insert_item g s = Inr g"
proof -
  obtain g where g: "insert_item f s = Inr g"
    "numHashFunctions g = numHashFunctions f"
    "length (bitArray g) = length (bitArray f)"
    "\<forall>j < length (bitArray f). bitArray g ! j =
        (bitArray f ! j \<or> (\<exists>t. t < numHashFunctions f \<and> j = position f s t))"
    using valid_insert_item [OF assms, of s] by blast
  have v: "0 < length (bitArray g)" "length (bitArray g) < 2 ^ 64"
    using g(3) assms by simp_all
  obtain g' where g': "insert_item g s = Inr g'"
    "numHashFunctions g' = numHashFunctions g"
    "length (bitArray g') = length (bitArray g)"
    "\<forall>j < length (bitArray g). bitArray g' ! j =
        (bitArray g ! j \<or> (\<exists>t. t < numHashFunctions g \<and> j = position g s t))"
    using valid_insert_item [OF v, of s] by blast
  have p: "\<And>t. position g s t = position f s t"
    by (rule position_cong) (simp add: g(3))
  have "bitArray g' = bitArray g"
  proof (rule nth_equalityI)
    show "length (bitArray g') = length (bitArray g)"
      by (rule g'(3))
  next
    fix j assume "j < length (bitArray g')"
    then have j: "j < length (bitArray f)"
      using g'(3) g(3) by simp
    then have "bitArray g' ! j =
        (bitArray g ! j \<or> (\<exists>t. t < numHashFunctions f \<and> j = position f s t))"
      using g'(4) g(2,3) p by simp
    moreover have "bitArray g ! j =
        (bitArray f ! j \<or> (\<exists>t. t < numHashFunctions f \<and> j = position f s t))"
      using g(4) j by simp
    ultimately show "bitArray g' ! j = bitArray g ! j"
      by blast
  qed
  then have "g' = g"
    using g'(2) by simp
  with g(1) g'(1) show ?thesis by simp
qed

theorem insert_idempotent_witness:
  "0 < length (bitArray (BloomFilter 8 2)) \<and> length (bitArray (BloomFilter 8 2)) < 2 ^ 64
   \<and> insert_item (BloomFilter 8 2) ''ab'' =
       Inr \<lparr>bitArray = [False, False, True, True, False, False, False, False],
            numHashFunctions = 2\<rparr>
   \<and> insert_item \<lparr>bitArray = [False, False, True, True, False, False, False, False],
                   numHashFunctions = 2\<rparr> ''ab'' =
       Inr \<lparr>bitArray = [False, False, True, True, False, False, False, False],
            numHashFunctions = 2\<rparr>"
proof -
  have a: "0 < length (bitArray (BloomFilter 8 2))"
    by (simp add: BloomFilter_def)
  have b: "length (bitArray (BloomFilter 8 2)) < 2 ^ 64"
    by (simp add: BloomFilter_def)
  show ?thesis
    using a b insert_idempotent [OF a b, of "''ab''"] run_ab by simp
qed

section \<open>Monotonic growth of the set bits\<close>

text \<open>
  Claim C7. Across any sequence of \<^verbatim>\<open>insert\<close> calls on a filter with a non-empty bit
  array, the calls return, the length of the bit array (what \<^verbatim>\<open>getBitArraySize\<close>
  reports) does not change, and the set of positions whose bit is true never shrinks:
  every bit that is true before is true after.
\<close>

theorem true_bits_never_shrink:
  assumes "0 < length (bitArray f)" and "length (bitArray f) < 2 ^ 64"
  shows "\<exists>g. insert_all f xs = Inr g
           \<and> length (bitArray g) = length (bitArray f)
           \<and> getBitArraySize g = getBitArraySize f
           \<and> {j. j < length (bitArray f) \<and> bitArray f ! j}
               \<subseteq> {j. j < length (bitArray g) \<and> bitArray g ! j}"
proof -
  obtain g where g: "insert_all f xs = Inr g"
    "length (bitArray g) = length (bitArray f)"
    "\<forall>j < length (bitArray f). bitArray f ! j \<longrightarrow> bitArray g ! j"
    using valid_insert_all [OF assms, of xs] by blast
  have "getBitArraySize g = getBitArraySize f"
    using g(2) by (simp add: getBitArraySize_def)
  moreover have "{j. j < length (bitArray f) \<and> bitArray f ! j}
      \<subseteq> {j. j < length (bitArray g) \<and> bitArray g ! j}"
    using g(2,3) by auto
  ultimately show ?thesis
    using g(1,2) by blast
qed

theorem true_bits_never_shrink_witness:
  "0 < length (bitArray (BloomFilter 8 2)) \<and> length (bitArray (BloomFilter 8 2)) < 2 ^ 64
   \<and> (\<exists>g. insert_all (BloomFilter 8 2) [''ab'', ''cd''] = Inr g
          \<and> length (bitArray g) = length (bitArray (BloomFilter 8 2))
          \<and> getBitArraySize g = getBitArraySize (BloomFilter 8 2)
          \<and> {j. j < length (bitArray (BloomFilter 8 2)) \<and> bitArray (BloomFilter 8 2) ! j}
              \<subseteq> {j. j < length (bitArray g) \<and> bitArray g ! j})"
proof -
  have a: "0 < length (bitArray (BloomFilter 8 2))"
    by (simp add: BloomFilter_def)
  have b: "length (bitArray (BloomFilter 8 2)) < 2 ^ 64"
    by (simp add: BloomFilter_def)
  show ?thesis
    using a b true_bits_never_shrink [OF a b, of "[''ab'', ''cd'']"] by blast
qed

section \<open>Accesses within bounds\<close>

text \<open>
  Claim C10. In a filter whose bit array has length \<open>m \<ge> 1\<close>, \<^verbatim>\<open>hash(item, seed)\<close>
  returns a value strictly below \<open>m\<close> for every string and every seed, and so
  \<^verbatim>\<open>insert\<close> and \<^verbatim>\<open>mightContain\<close> return without an access outside the bit array
  (which the model would report as the fault \<open>OutOfBounds\<close>).
\<close>

theorem accesses_in_bounds:
  assumes "0 < length (bitArray f)" and "length (bitArray f) < 2 ^ 64"
  shows "(\<exists>h. hash f item seed = Inr h \<and> h < getBitArraySize f \<and> unat h < length (bitArray f))
       \<and> (\<exists>g. insert_item f item = Inr g)
       \<and> (\<exists>b. mightContain f item = Inr b)"
proof -
  obtain h where h: "hash f item seed = Inr h" "unat h = position f item seed"
    using hash_position [OF assms] by blast
  have "unat h < length (bitArray f)"
    using h(2) position_less [OF assms] by simp
  moreover from this have "h < getBitArraySize f"
    using assms(2) by (simp add: word_less_nat_alt size_unat)
  moreover have "\<exists>g. insert_item f item = Inr g"
    using valid_insert_item [OF assms, of item] by blast
  moreover have "\<exists>b. mightContain f item = Inr b"
    by (simp add: valid_mightContain [OF assms])
  ultimately show ?thesis
    using h(1) by simp
qed

theorem accesses_in_bounds_witness:
  "0 < length (bitArray (BloomFilter 8 2)) \<and> length (bitArray (BloomFilter 8 2)) < 2 ^ 64
   \<and> (\<exists>h. hash (BloomFilter 8 2) ''ab'' 1 = Inr h \<and> h < getBitArraySize (BloomFilter 8 2)
          \<and> unat h < length (bitArray (BloomFilter 8 2)))
   \<and> (\<exists>g. insert_item (BloomFilter 8 2) ''ab'' = Inr g)
   \<and> (\<exists>b. mightContain (BloomFilter 8 2) ''ab'' = Inr b)"
proof -
  have a: "0 < length (bitArray (BloomFilter 8 2))"
    by (simp add: BloomFilter_def)
  have b: "length (bitArray (BloomFilter 8 2)) < 2 ^ 64"
    by (simp add: BloomFilter_def)
  show ?thesis
    using a b accesses_in_bounds [OF a b, of "''ab''" 1] by blast
qed

section \<open>Memory accounting rounds up\<close>

lemma size_constructed: "getBitArraySize (BloomFilter m k) = m"
  by (simp add: getBitArraySize_def BloomFilter_def)





section \<open>The constructor has no check\<close>

text \<open>
  Claim C4 says that the constructor rejects \<open>m = 0\<close> and \<open>k = 0\<close>. The source
  constructor does not look at its arguments. The three filters below are built from
  pairs the claim wants rejected, and the last one then answers true for a string that
  was never inserted.
\<close>

theorem constructor_accepts_zero:
  "BloomFilter 0 0 = \<lparr>bitArray = [], numHashFunctions = 0\<rparr>
   \<and> BloomFilter 0 3 = \<lparr>bitArray = [], numHashFunctions = 3\<rparr>
   \<and> BloomFilter 1 0 = \<lparr>bitArray = [False], numHashFunctions = 0\<rparr>
   \<and> mightContain \<lparr>bitArray = [False], numHashFunctions = 0\<rparr> ''x'' = Inr True"
proof -
  have "mightContain \<lparr>bitArray = [False], numHashFunctions = 0\<rparr> ''x'' = Inr True"
    unfolding mightContain_def by (subst mightContain_loop.simps) simp
  then show ?thesis
    by (simp add: BloomFilter_def)
qed

text \<open>
  Claim C4, amended. The constructor does not reject \<open>m = 0\<close> or \<open>k = 0\<close>. For
  \<open>m = 0\<close> and every \<open>k\<close> it yields a filter with an empty bit array and hash count
  \<open>k\<close>; on that filter, when \<open>k \<ge> 1\<close>, \<^verbatim>\<open>insert\<close> and \<^verbatim>\<open>mightContain\<close> take a
  remainder by zero, which is undefined in C++. On a filter whose hash count is \<open>0\<close>,
  as the constructor stores it for \<open>k = 0\<close>, \<^verbatim>\<open>insert\<close> changes nothing and
  \<^verbatim>\<open>mightContain\<close> returns true for every string.
\<close>

theorem constructor_unchecked:
  "BloomFilter 0 k = \<lparr>bitArray = [], numHashFunctions = k\<rparr>
   \<and> (k \<noteq> 0 \<longrightarrow>
        insert_item (BloomFilter 0 k) s = Inl DivisionByZero
        \<and> mightContain (BloomFilter 0 k) s = Inl DivisionByZero)
   \<and> (numHashFunctions f = 0 \<longrightarrow> insert_item f s = Inr f \<and> mightContain f s = Inr True)"
proof -
  have c: "BloomFilter 0 k = \<lparr>bitArray = [], numHashFunctions = k\<rparr>"
    by (simp add: BloomFilter_def)
  have z: "insert_item f s = Inr f \<and> mightContain f s = Inr True"
    if "numHashFunctions f = 0"
  proof -
    have "\<not> (0 :: size_t) < numHashFunctions f"
      using that by simp
    then have "insert_loop f s 0 = Inr f"
      by (subst insert_loop.simps) simp
    moreover from that have "mightContain_loop f s 0 = Inr True"
      by (subst mightContain_loop.simps) simp
    ultimately show ?thesis
      by (simp add: insert_item_def mightContain_def)
  qed
  have e: "insert_item (BloomFilter 0 k) s = Inl DivisionByZero
      \<and> mightContain (BloomFilter 0 k) s = Inl DivisionByZero" if "k \<noteq> 0"
  proof -
    have lt: "0 < numHashFunctions (BloomFilter 0 k)"
      using that by (simp add: BloomFilter_def word_greater_zero_iff)
    have h: "hash (BloomFilter 0 k) s 0 = Inl DivisionByZero"
      by (simp add: hash_def size_constructed)
    have "insert_item (BloomFilter 0 k) s = Inl DivisionByZero"
      unfolding insert_item_def using lt h by (subst insert_loop.simps) simp
    moreover have "mightContain (BloomFilter 0 k) s = Inl DivisionByZero"
      unfolding mightContain_def using lt h by (subst mightContain_loop.simps) simp
    ultimately show ?thesis ..
  qed
  show ?thesis
    using c z e by blast
qed

theorem constructor_unchecked_witness:
  "(1 :: size_t) \<noteq> 0
   \<and> numHashFunctions \<lparr>bitArray = [False], numHashFunctions = 0\<rparr> = 0
   \<and> BloomFilter 0 1 = \<lparr>bitArray = [], numHashFunctions = 1\<rparr>
   \<and> insert_item (BloomFilter 0 1) ''x'' = Inl DivisionByZero
   \<and> mightContain (BloomFilter 0 1) ''x'' = Inl DivisionByZero
   \<and> insert_item \<lparr>bitArray = [False], numHashFunctions = 0\<rparr> ''x''
       = Inr \<lparr>bitArray = [False], numHashFunctions = 0\<rparr>
   \<and> mightContain \<lparr>bitArray = [False], numHashFunctions = 0\<rparr> ''x'' = Inr True"
proof -
  have a: "(1 :: size_t) \<noteq> 0"
    by simp
  have b: "numHashFunctions \<lparr>bitArray = [False], numHashFunctions = 0\<rparr> = 0"
    by simp
  show ?thesis
    using a b constructor_unchecked
      [of 1 "''x''" "\<lparr>bitArray = [False], numHashFunctions = 0\<rparr>"]
    by blast
qed

section \<open>Numeric bounds for the planner\<close>

lemma ln2_lower: "3 / 5 \<le> ln (2 :: real)"
proof -
  have "exp (3 / 5 :: real) \<le> 1 + 3 / 5 + (3 / 5)\<^sup>2"
    by (rule exp_bound) simp_all
  also have "\<dots> \<le> 2"
    by (simp add: power2_eq_square)
  finally have "exp (3 / 5 :: real) \<le> 2" .
  then show ?thesis
    by (simp only: ln_ge_iff [OF zero_less_numeral])
qed

lemma ln2_upper: "ln (2 :: real) \<le> 7 / 10"
proof -
  have "(2 :: real) \<le> (1 + 7 / 40 + (7 / 40)\<^sup>2 / 2) ^ 4"
    by (simp add: power2_eq_square power4_eq_xxxx)
  also have "\<dots> \<le> exp (7 / 40) ^ 4"
    by (rule power_mono [OF exp_lower_Taylor_quadratic]) simp_all
  also have "\<dots> = exp (7 / 10 :: real)"
    by (simp add: exp_of_nat_mult [symmetric])
  finally have "ln (2 :: real) \<le> ln (exp (7 / 10))"
    by (subst ln_le_cancel_iff) simp_all
  then show ?thesis by simp
qed

lemma ln2_sq_bounds: "9 / 25 \<le> ln (2 :: real) * ln 2" "ln (2 :: real) * ln 2 \<le> 49 / 100"
proof -
  have p: "0 \<le> ln (2 :: real)" by simp
  show "9 / 25 \<le> ln (2 :: real) * ln 2"
    using mult_mono [OF ln2_lower ln2_lower] by simp
  show "ln (2 :: real) * ln 2 \<le> 49 / 100"
    using mult_mono [OF ln2_upper ln2_upper _ p] by simp
qed

lemma neg_ln_bounds: "1 / 100 \<le> - ln (99 / 100 :: real)" "- ln (99 / 100 :: real) \<le> 1 / 99"
proof -
  have "ln (99 / 100 :: real) \<le> 99 / 100 - 1"
    by (rule ln_le_minus_one) simp
  then show "1 / 100 \<le> - ln (99 / 100 :: real)" by simp
  have "ln (100 / 99 :: real) \<le> 100 / 99 - 1"
    by (rule ln_le_minus_one) simp
  moreover have "ln (100 / 99 :: real) = - ln (99 / 100)"
    using ln_inverse [of "99 / 100 :: real"] by simp
  ultimately show "- ln (99 / 100 :: real) \<le> 1 / 99" by simp
qed

lemma double_to_size_t_int:
  assumes "0 \<le> c" and "c < 2 ^ 64"
  shows "double_to_size_t (real_of_int c) = Inr (word_of_int c)"
  using assms by (simp add: double_to_size_t_def)


lemma double_to_size_t_negative:
  assumes "c < 0"
  shows "double_to_size_t (real_of_int c) = Inl ConversionOutOfRange"
  using assms by (simp add: double_to_size_t_def)

lemma hash_count_in_range:
  fixes q :: size_t
  shows "0 \<le> \<lceil>real (unat q) * ln 2\<rceil>" and "\<lceil>real (unat q) * ln 2\<rceil> < 2 ^ 64"
proof -
  have un: "0 \<le> real (unat q)"
    by (rule of_nat_0_le_iff)
  have nn: "0 \<le> real (unat q) * ln 2"
    by (rule mult_nonneg_nonneg [OF un]) simp
  then show "0 \<le> \<lceil>real (unat q) * ln 2\<rceil>"
    by (simp add: zero_le_ceiling)
  have "real (unat q) * ln 2 \<le> real (unat q) * 1"
    by (rule mult_left_mono [OF less_imp_le [OF ln_2_less_1] un])
  then have "real (unat q) * ln 2 \<le> real_of_int (int (unat q))"
    by simp
  then have "\<lceil>real (unat q) * ln 2\<rceil> \<le> int (unat q)"
    by (simp only: ceiling_le_iff)
  moreover have "int (unat q) < 2 ^ 64"
    using unsigned_less [of q, where 'a = int] by simp
  ultimately show "\<lceil>real (unat q) * ln 2\<rceil> < 2 ^ 64"
    by (rule le_less_trans)
qed

lemma optimalParameters_positive_rate:
  assumes "0 < p"
  shows "optimalParameters n p =
     (case double_to_size_t (ceil (- (real (unat n) * ln p) / (ln 2 * ln 2))) of
        Inl e \<Rightarrow> Inl e
      | Inr m \<Rightarrow>
          if n = 0 then Inl DivisionByZero
          else Inr (m, word_of_int \<lceil>real (unat (m div n)) * ln 2\<rceil>))"
proof -
  have "double_to_size_t (ceil (real (unat q) * ln 2)) = Inr (word_of_int \<lceil>real (unat q) * ln 2\<rceil>)"
    for q :: size_t
    unfolding ceil_def by (rule double_to_size_t_int [OF hash_count_in_range])
  with assms show ?thesis
    by (simp add: optimalParameters_def split: sum.splits)
qed

lemma planner_at_100:
  "optimalParameters 100 (99 / 100) = Inr (3, 0)"
proof -
  let ?x = "- (real (unat (100 :: size_t)) * ln (99 / 100)) / (ln 2 * ln 2)"
  have pos: "0 < ln (2 :: real) * ln 2"
    by simp
  have x: "?x = 100 * (- ln (99 / 100)) / (ln 2 * ln 2)"
    by simp
  have "2 * (ln (2 :: real) * ln 2) < 100 * (- ln (99 / 100))"
    using ln2_sq_bounds(2) neg_ln_bounds(1) by linarith
  then have lo: "2 < ?x"
    unfolding x using pos by (simp only: less_divide_eq if_P)
  have "100 * (- ln (99 / 100 :: real)) \<le> 3 * (ln 2 * ln 2)"
    using ln2_sq_bounds(1) neg_ln_bounds(2) by linarith
  then have hi: "?x \<le> 3"
    unfolding x using pos by (simp only: divide_le_eq if_P)
  have "\<lceil>?x\<rceil> = 3"
    by (rule ceiling_unique) (use lo hi in simp_all)
  then have "double_to_size_t (ceil ?x) = Inr 3"
    using double_to_size_t_int [of 3] by (simp add: ceil_def)
  then show ?thesis
    by (simp add: optimalParameters_positive_rate)
qed

lemma spec_at_100: "spec_optimalParameters 100 (99 / 100) = (3, 1)"
proof -
  let ?x = "- (real 100 * ln (99 / 100)) / (ln 2)\<^sup>2"
  have pos: "0 < ln (2 :: real) * ln 2"
    by simp
  have x: "?x = 100 * (- ln (99 / 100)) / (ln 2 * ln 2)"
    by (simp add: power2_eq_square)
  have "2 * (ln (2 :: real) * ln 2) < 100 * (- ln (99 / 100))"
    using ln2_sq_bounds(2) neg_ln_bounds(1) by linarith
  then have lo: "2 < ?x"
    unfolding x using pos by (simp only: less_divide_eq if_P)
  have "100 * (- ln (99 / 100 :: real)) \<le> 3 * (ln 2 * ln 2)"
    using ln2_sq_bounds(1) neg_ln_bounds(2) by linarith
  then have hi: "?x \<le> 3"
    unfolding x using pos by (simp only: divide_le_eq if_P)
  have m: "\<lceil>?x\<rceil> = 3"
    by (rule ceiling_unique) (use lo hi in simp_all)
  have "0 < 3 / 100 * ln (2 :: real)" "3 / 100 * ln (2 :: real) \<le> 1"
    using ln2_lower ln2_upper by simp_all
  then have "\<lceil>real_of_int 3 / real 100 * ln 2\<rceil> = 1"
    by (intro ceiling_unique) simp_all
  with m show ?thesis
    by (simp add: spec_optimalParameters_def Let_def)
qed


lemma planner_at_rate_one: "optimalParameters 100 1 = Inr (0, 0)"
  using double_to_size_t_int [of 0]
  by (simp add: optimalParameters_positive_rate ceil_def)










section \<open>The planner divides in the integers\<close>

text \<open>
  Claim C2 (the code departs from it). The specification gives
  \<open>k = ceil((m / n) * ln 2)\<close> with the ratio \<open>m / n\<close> of the rounded \<open>m\<close>; the source
  computes \<^verbatim>\<open>m / expectedElements\<close> on two \<^verbatim>\<open>size_t\<close> values, which truncates the
  ratio before it is multiplied by \<open>ln 2\<close>. For \<open>n = 100\<close> and \<open>p = 0.99\<close> both agree on
  \<open>m = 3\<close>; the specification's formula gives \<open>k = 1\<close>, the source returns \<open>k = 0\<close>.
\<close>

theorem planner_truncates_ratio:
  "optimalParameters 100 (99 / 100) = Inr (3, 0)
   \<and> spec_optimalParameters (unat (100 :: size_t)) (99 / 100) = (3, 1)"
  using planner_at_100 spec_at_100 by simp

text \<open>
  Claim C9. There is a valid planner input, \<open>n = 100\<close> and \<open>p = 0.99\<close>, with
  \<open>n \<ge> 1\<close> and \<open>0 < p < 1\<close>, for which the computed \<open>m\<close> is smaller than \<open>n\<close>, the
  integer quotient \<open>m / n\<close> is zero, and \<^verbatim>\<open>optimalParameters\<close> returns the hash count
  \<open>k = 0\<close>.
\<close>

theorem planner_zero_hash_count:
  "(1 :: size_t) \<le> 100 \<and> (0 :: real) < 99 / 100 \<and> (99 / 100 :: real) < 1
   \<and> (\<exists>m. optimalParameters 100 (99 / 100) = Inr (m, 0) \<and> m < 100 \<and> m div 100 = 0)"
  using planner_at_100 by simp
section \<open>The planner has no check\<close>

text \<open>
  Claim C3 says that the planner rejects \<open>n = 0\<close> and every \<open>p\<close> outside \<open>(0, 1)\<close>
  with an invalid-argument failure. The source has no check: for \<open>n = 100\<close> and
  \<open>p = 1\<close> it returns the degenerate pair \<open>(0, 0)\<close>.
\<close>

theorem planner_accepts_rate_one:
  "optimalParameters 100 1 = Inr (0, 0)"
  by (rule planner_at_rate_one)

text \<open>
  Claim C3, amended. The planner performs no validation and reports no invalid-argument
  failure. For \<open>n = 0\<close> and a positive rate it divides by zero; for a rate \<open>q \<le> 0\<close> it
  converts an infinity or a NaN to \<^verbatim>\<open>size_t\<close>; both are undefined in C++. For a rate
  \<open>r \<ge> 1\<close> and \<open>n \<ge> 1\<close> it either returns the degenerate pair \<open>(0, 0)\<close>, as it
  does for \<open>r = 1\<close>, or converts a negative value to \<^verbatim>\<open>size_t\<close>, which is undefined
  as well.
\<close>

theorem planner_unchecked:
  "(0 < p \<longrightarrow> optimalParameters 0 p = Inl DivisionByZero)
   \<and> (q \<le> 0 \<longrightarrow> optimalParameters n q = Inl ConversionOutOfRange)
   \<and> (1 \<le> r \<and> n \<noteq> 0 \<longrightarrow>
        optimalParameters n r = Inr (0, 0)
        \<or> optimalParameters n r = Inl ConversionOutOfRange)"
proof (intro conjI impI)
  assume "0 < p"
  then show "optimalParameters 0 p = Inl DivisionByZero"
    using double_to_size_t_int [of 0]
    by (simp add: optimalParameters_positive_rate ceil_def)
next
  assume "q \<le> 0"
  then show "optimalParameters n q = Inl ConversionOutOfRange"
    by (simp add: optimalParameters_def)
next
  assume a: "1 \<le> r \<and> n \<noteq> 0"
  let ?x = "- (real (unat n) * ln r) / (ln 2 * ln 2)"
  have pos: "0 < ln (2 :: real) * ln 2"
    by simp
  have un: "0 \<le> real (unat n)"
    by (rule of_nat_0_le_iff)
  have "0 \<le> real (unat n) * ln r"
    by (rule mult_nonneg_nonneg [OF un]) (use a in simp)
  then have "?x \<le> 0"
    using pos by (simp add: divide_le_0_iff)
  then have le0: "\<lceil>?x\<rceil> \<le> 0"
    by (simp only: ceiling_le_zero)
  have r0: "0 < r"
    using a by simp
  show "optimalParameters n r = Inr (0, 0)
      \<or> optimalParameters n r = Inl ConversionOutOfRange"
  proof (cases "\<lceil>?x\<rceil> = 0")
    case True
    then have "double_to_size_t (ceil ?x) = Inr 0"
      using double_to_size_t_int [of 0] by (simp add: ceil_def)
    with a have "optimalParameters n r = Inr (0, 0)"
      by (simp add: optimalParameters_positive_rate [OF r0])
    then show ?thesis ..
  next
    case False
    with le0 have "\<lceil>?x\<rceil> < 0"
      by linarith
    then have "double_to_size_t (ceil ?x) = Inl ConversionOutOfRange"
      unfolding ceil_def by (rule double_to_size_t_negative)
    then have "optimalParameters n r = Inl ConversionOutOfRange"
      by (simp add: optimalParameters_positive_rate [OF r0])
    then show ?thesis ..
  qed
qed

theorem planner_unchecked_witness:
  "optimalParameters 0 (1 / 100) = Inl DivisionByZero
   \<and> optimalParameters 100 0 = Inl ConversionOutOfRange
   \<and> optimalParameters 100 1 = Inr (0, 0)"
  using planner_unchecked [where p = "1 / 100" and q = 0 and n = 100 and r = 1]
    planner_at_rate_one
  by simp

section \<open>Sizing monotonicity\<close>




end
